theory Spec2Isabelle
  imports Main "HOL-Library.Multiset"
begin

section \<open>The Sudoku core of script.js: data model\<close>

text \<open>
  The core of \<^verbatim>\<open>script.js\<close> works on a board that is a JavaScript array of rows, each
  row an array of numbers, with 0 for an empty cell. The model keeps that shape: a board
  is a list of rows and a cell holds an integer. Row and column indices are naturals.

  Two failures of the source are values of the model:
  \<^item> \<^verbatim>\<open>board[r][c]\<close> throws a TypeError when \<^verbatim>\<open>board[r]\<close> is undefined (row index out
    of range), and yields \<^verbatim>\<open>undefined\<close> when only the column is out of range;
  \<^item> the recursion of \<^verbatim>\<open>solveSudoku\<close> lives on the call stack, and an engine throws a
    RangeError once the stack budget is used up.
\<close>

datatype error = TypeError | RangeError

type_synonym board = "int list list"

type_synonym pos = "nat \<times> nat"

definition SIZE :: nat where
  "SIZE = 9"

text \<open>\<^verbatim>\<open>board[r][c]\<close> as an expression that is read; \<open>None\<close> is \<^verbatim>\<open>undefined\<close>.\<close>

definition cell :: "board \<Rightarrow> nat \<Rightarrow> nat \<Rightarrow> error + int option" where
  "cell board r c =
     (if r < length board
      then Inr (if c < length (board ! r) then Some (board ! r ! c) else None)
      else Inl TypeError)"

text \<open>
  \<^verbatim>\<open>board[r][c] = v\<close>. Every assignment of the core is made at a position that was read
  just before and held a number (the position \<^verbatim>\<open>findEmpty\<close> returned, or a cell whose
  value was truthy), so the index is in range wherever the model calls this.
\<close>

definition set_cell :: "board \<Rightarrow> nat \<Rightarrow> nat \<Rightarrow> int \<Rightarrow> board" where
  "set_cell board r c v = board[r := (board ! r)[c := v]]"

text \<open>
  The loops of the core all have the form
  \<^verbatim>\<open>for (...) if (board[i][j] === val) return ...;\<close>
  over a fixed sequence of positions. \<open>first_eq\<close> walks the positions in the order of the
  loop and stops at the first cell that is strictly equal to \<open>val\<close>; \<^verbatim>\<open>undefined\<close> is
  equal to no number.
\<close>

fun first_eq :: "board \<Rightarrow> int \<Rightarrow> pos list \<Rightarrow> error + pos option" where
  "first_eq board val [] = Inr None"
| "first_eq board val ((i, j) # ps) =
     (case cell board i j of
        Inl e \<Rightarrow> Inl e
      | Inr v \<Rightarrow> if v = Some val then Inr (Some (i, j)) else first_eq board val ps)"

text \<open>The positions visited by the three loops of \<^verbatim>\<open>isSafe\<close>, in the order visited.\<close>

definition row_cells :: "nat \<Rightarrow> pos list" where
  "row_cells r = map (\<lambda>j. (r, j)) [0..<SIZE]"

definition col_cells :: "nat \<Rightarrow> pos list" where
  "col_cells c = map (\<lambda>i. (i, c)) [0..<SIZE]"

definition box_cells :: "nat \<Rightarrow> nat \<Rightarrow> pos list" where
  "box_cells r c =
     (let br = (r div 3) * 3; bc = (c div 3) * 3
      in concat (map (\<lambda>i. map (\<lambda>j. (br + i, bc + j)) [0..<3]) [0..<3]))"

section \<open>Constraint checker\<close>

text \<open>
  \<^verbatim>\<open>
  function isSafe(board, r, c, val) {
    for (let j = 0; j < SIZE; j++) if (board[r][j] === val) return false;
    for (let i = 0; i < SIZE; i++) if (board[i][c] === val) return false;
    const br = Math.floor(r/3)*3, bc = Math.floor(c/3)*3;
    for (let i = 0; i < 3; i++) for (let j = 0; j < 3; j++)
      if (board[br+i][bc+j] === val) return false;
    return true;
  }
  \<close>
\<close>

definition isSafe :: "board \<Rightarrow> nat \<Rightarrow> nat \<Rightarrow> int \<Rightarrow> error + bool" where
  "isSafe board r c val =
     (case first_eq board val (row_cells r) of
        Inl e \<Rightarrow> Inl e
      | Inr (Some _) \<Rightarrow> Inr False
      | Inr None \<Rightarrow>
     (case first_eq board val (col_cells c) of
        Inl e \<Rightarrow> Inl e
      | Inr (Some _) \<Rightarrow> Inr False
      | Inr None \<Rightarrow>
     (case first_eq board val (box_cells r c) of
        Inl e \<Rightarrow> Inl e
      | Inr (Some _) \<Rightarrow> Inr False
      | Inr None \<Rightarrow> Inr True)))"

section \<open>Solver\<close>

text \<open>
  \<^verbatim>\<open>
  function findEmpty(board) {
    for (let r=0;r<SIZE;r++) for (let c=0;c<SIZE;c++) if (board[r][c] === 0) return [r,c];
    return null;
  }
  \<close>
\<close>

definition all_cells :: "pos list" where
  "all_cells = concat (map (\<lambda>r. map (\<lambda>c. (r, c)) [0..<SIZE]) [0..<SIZE])"

definition findEmpty :: "board \<Rightarrow> error + pos option" where
  "findEmpty board = first_eq board 0 all_cells"

text \<open>
  \<^verbatim>\<open>
  function solveSudoku(board) {
    const pos = findEmpty(board);
    if (!pos) return true; // solved
    const [r,c] = pos;
    for (let d=1; d<=9; d++) {
      if (isSafe(board, r, c, d)) {
        board[r][c] = d;
        if (solveSudoku(board)) return true;
        board[r][c] = 0; // backtrack
      }
    }
    return false;
  }
  \<close>
  The board is mutated in place, so the model returns the board together with the
  boolean. \<open>try_digits\<close> is the \<^verbatim>\<open>for\<close> loop over the digits still to try; its first
  argument is the recursive call. The first argument of \<open>solveSudoku\<close> is the stack
  budget: the number of activations of \<^verbatim>\<open>solveSudoku\<close> that may be live at once. With
  budget 0 the call itself does not fit and the engine's RangeError is the result.
\<close>

fun try_digits ::
  "(board \<Rightarrow> error + bool \<times> board) \<Rightarrow> board \<Rightarrow> nat \<Rightarrow> nat \<Rightarrow> int list \<Rightarrow> error + bool \<times> board"
where
  "try_digits rec board r c [] = Inr (False, board)"
| "try_digits rec board r c (d # ds) =
     (case isSafe board r c d of
        Inl e \<Rightarrow> Inl e
      | Inr False \<Rightarrow> try_digits rec board r c ds
      | Inr True \<Rightarrow>
          (case rec (set_cell board r c d) of
             Inl e \<Rightarrow> Inl e
           | Inr (True, board') \<Rightarrow> Inr (True, board')
           | Inr (False, board') \<Rightarrow> try_digits rec (set_cell board' r c 0) r c ds))"

fun solveSudoku :: "nat \<Rightarrow> board \<Rightarrow> error + bool \<times> board" where
  "solveSudoku 0 board = Inl RangeError"
| "solveSudoku (Suc n) board =
     (case findEmpty board of
        Inl e \<Rightarrow> Inl e
      | Inr None \<Rightarrow> Inr (True, board)
      | Inr (Some (r, c)) \<Rightarrow> try_digits (solveSudoku n) board r c [1..9])"


text \<open>
  The same search with a log of the working board: the board is appended to the log
  after every assignment \<^verbatim>\<open>board[r][c] = d\<close> and \<^verbatim>\<open>board[r][c] = 0\<close>, in the order
  in which the assignments happen. Nothing else differs from \<open>try_digits\<close> and
  \<open>solveSudoku\<close> (lemma \<open>solveSudoku_steps_result\<close> below).
\<close>

fun try_digits_steps ::
  "(board \<Rightarrow> error + bool \<times> board \<times> board list) \<Rightarrow> board \<Rightarrow> nat \<Rightarrow> nat \<Rightarrow> int list
     \<Rightarrow> error + bool \<times> board \<times> board list"
where
  "try_digits_steps rec board r c [] = Inr (False, board, [])"
| "try_digits_steps rec board r c (d # ds) =
     (case isSafe board r c d of
        Inl e \<Rightarrow> Inl e
      | Inr False \<Rightarrow> try_digits_steps rec board r c ds
      | Inr True \<Rightarrow>
          (case rec (set_cell board r c d) of
             Inl e \<Rightarrow> Inl e
           | Inr (True, board', log) \<Rightarrow> Inr (True, board', set_cell board r c d # log)
           | Inr (False, board', log) \<Rightarrow>
               (case try_digits_steps rec (set_cell board' r c 0) r c ds of
                  Inl e \<Rightarrow> Inl e
                | Inr (ok, board'', log') \<Rightarrow>
                    Inr (ok, board'', set_cell board r c d # log @ set_cell board' r c 0 # log'))))"

fun solveSudoku_steps :: "nat \<Rightarrow> board \<Rightarrow> error + bool \<times> board \<times> board list" where
  "solveSudoku_steps 0 board = Inl RangeError"
| "solveSudoku_steps (Suc n) board =
     (case findEmpty board of
        Inl e \<Rightarrow> Inl e
      | Inr None \<Rightarrow> Inr (True, board, [])
      | Inr (Some (r, c)) \<Rightarrow> try_digits_steps (solveSudoku_steps n) board r c [1..9])"

section \<open>Validator\<close>

text \<open>
  \<^verbatim>\<open>
  function validateBoard() {
    clearHighlights();
    const b = getBoard();
    let valid = true;
    for (let r = 0; r < SIZE; r++) {
      for (let c = 0; c < SIZE; c++) {
        const v = b[r][c];
        if (!v) continue;
        b[r][c] = 0;
        const ok = isSafe(b, r, c, v);
        if (!ok) { inputs[r*SIZE + c].classList.add('invalid'); valid = false; }
        b[r][c] = v;
      }
    }
    showStatus(valid ? 'Board valid' : 'Conflicts found', valid ? 'ok' : 'error');
    return valid;
  }
  \<close>
  The board read from the page is the argument of the model. The state of the double
  loop is the board \<^verbatim>\<open>b\<close>, the flag \<^verbatim>\<open>valid\<close> and the cells that carry the class
  \<^verbatim>\<open>invalid\<close>, in the order in which they were marked; \<^verbatim>\<open>clearHighlights\<close> removes that
  class from every cell first, so the list starts empty. \<^verbatim>\<open>undefined\<close> and 0 are falsy.
  The result is the returned flag, the marked cells and the board as the loop leaves it.
\<close>

fun validate_cells ::
  "pos list \<Rightarrow> board \<times> bool \<times> pos list \<Rightarrow> error + board \<times> bool \<times> pos list"
where
  "validate_cells [] s = Inr s"
| "validate_cells ((r, c) # ps) (b, valid, invalid) =
     (case cell b r c of
        Inl e \<Rightarrow> Inl e
      | Inr None \<Rightarrow> validate_cells ps (b, valid, invalid)
      | Inr (Some v) \<Rightarrow>
          if v = 0 then validate_cells ps (b, valid, invalid)
          else
            (case isSafe (set_cell b r c 0) r c v of
               Inl e \<Rightarrow> Inl e
             | Inr ok \<Rightarrow>
                 validate_cells ps
                   (set_cell (set_cell b r c 0) r c v,
                    (if ok then valid else False),
                    (if ok then invalid else invalid @ [(r, c)]))))"

definition validateBoard :: "board \<Rightarrow> error + bool \<times> pos list \<times> board" where
  "validateBoard b =
     (case validate_cells all_cells (b, True, []) of
        Inl e \<Rightarrow> Inl e
      | Inr (b', valid, invalid) \<Rightarrow> Inr (valid, invalid, b'))"

text \<open>Two calls in succession: the second call examines the board the first one left.\<close>

definition validate_twice ::
  "board \<Rightarrow> error + (bool \<times> pos list) \<times> (bool \<times> pos list) \<times> board" where
  "validate_twice b =
     (case validateBoard b of
        Inl e \<Rightarrow> Inl e
      | Inr (valid1, invalid1, b1) \<Rightarrow>
          (case validateBoard b1 of
             Inl e \<Rightarrow> Inl e
           | Inr (valid2, invalid2, b2) \<Rightarrow> Inr ((valid1, invalid1), (valid2, invalid2), b2)))"

section \<open>Puzzle strings\<close>

text \<open>
  \<^verbatim>\<open>
  function loadPuzzle(str) {
    const board = Array.from({length:SIZE}, ()=>Array(SIZE).fill(0));
    for (let i=0;i<81;i++) {
      const r = Math.floor(i/9), c = i%9;
      const ch = str[i];
      const v = ch === '.' || ch === '0' ? 0 : Number(ch);
      board[r][c] = v;
    }
    ...
  }
  \<close>
  Only the board that \<^verbatim>\<open>loadPuzzle\<close> builds is modelled (the mask and the page are not).
  \<^verbatim>\<open>Number\<close> of a one-character string is the digit's value for a decimal digit, 0 for
  white space and NaN otherwise; \<^verbatim>\<open>str[i]\<close> past the end is \<^verbatim>\<open>undefined\<close>, whose
  \<^verbatim>\<open>Number\<close> is NaN. NaN is no value of the board's cell type: the model returns \<open>None\<close>
  where the source would store it. Characters are read as code units below 256.
\<close>

definition white_space :: "char list" where
  "white_space = map char_of [9, 10, 11, 12, 13, 32, 160 :: nat]"

definition Number_of :: "char option \<Rightarrow> int option" where
  "Number_of ch =
     (case ch of
        None \<Rightarrow> None
      | Some x \<Rightarrow>
          if x \<in> set ''0123456789'' then Some (int (of_char x) - 48)
          else if x \<in> set white_space then Some 0
          else None)"

fun load_cells :: "string \<Rightarrow> nat list \<Rightarrow> board \<Rightarrow> board option" where
  "load_cells str [] board = Some board"
| "load_cells str (i # is) board =
     (let r = i div 9; c = i mod 9;
          ch = (if i < length str then Some (str ! i) else None)
      in case (if ch = Some CHR ''.'' \<or> ch = Some CHR ''0'' then Some 0 else Number_of ch) of
           None \<Rightarrow> None
         | Some v \<Rightarrow> load_cells str is (set_cell board r c v))"

definition loadPuzzle :: "string \<Rightarrow> board option" where
  "loadPuzzle str = load_cells str [0..<81] (replicate SIZE (replicate SIZE 0))"

text \<open>The first preset of \<^verbatim>\<open>PUZZLES\<close>.\<close>

definition PUZZLE_easy :: string where
  "PUZZLE_easy =
     ''530070000600195000098000060800060003400803001700020006060000280000419005000080079''"

section \<open>Notions of the specification\<close>

text \<open>A well-formed board: nine rows of nine cells.\<close>

definition wf_board :: "board \<Rightarrow> bool" where
  "wf_board b \<longleftrightarrow> length b = 9 \<and> (\<forall>row \<in> set b. length row = 9)"

text \<open>Cell \<open>(i, j)\<close> lies in the row, the column or the 3x3 box of cell \<open>(r, c)\<close>.\<close>

definition same_unit :: "nat \<Rightarrow> nat \<Rightarrow> nat \<Rightarrow> nat \<Rightarrow> bool" where
  "same_unit r c i j \<longleftrightarrow> i = r \<or> j = c \<or> (i div 3 = r div 3 \<and> j div 3 = c div 3)"

text \<open>The value \<open>d\<close> stands in some cell of the units of \<open>(r, c)\<close>, that cell included.\<close>

definition appears_in_units :: "board \<Rightarrow> nat \<Rightarrow> nat \<Rightarrow> int \<Rightarrow> bool" where
  "appears_in_units b r c d \<longleftrightarrow> (\<exists>i<9. \<exists>j<9. same_unit r c i j \<and> b ! i ! j = d)"

text \<open>The value \<open>d\<close> stands in some cell of the units of \<open>(r, c)\<close> other than \<open>(r, c)\<close>.\<close>

definition appears_elsewhere :: "board \<Rightarrow> nat \<Rightarrow> nat \<Rightarrow> int \<Rightarrow> bool" where
  "appears_elsewhere b r c d \<longleftrightarrow>
     (\<exists>i<9. \<exists>j<9. (i, j) \<noteq> (r, c) \<and> same_unit r c i j \<and> b ! i ! j = d)"

text \<open>
  The uniqueness constraint: no non-zero cell has its value in another cell of its row,
  column or box.
\<close>

definition valid_board :: "board \<Rightarrow> bool" where
  "valid_board b \<longleftrightarrow>
     (\<forall>r<9. \<forall>c<9. b ! r ! c \<noteq> 0 \<longrightarrow> \<not> appears_elsewhere b r c (b ! r ! c))"

text \<open>A conflicting cell: it is not empty and its value stands in another cell of its units.\<close>

definition in_conflict :: "board \<Rightarrow> pos \<Rightarrow> bool" where
  "in_conflict b p \<longleftrightarrow>
     b ! fst p ! snd p \<noteq> 0 \<and> appears_elsewhere b (fst p) (snd p) (b ! fst p ! snd p)"

text \<open>The number of empty cells, and a board without any.\<close>

definition empties :: "board \<Rightarrow> nat" where
  "empties b = count_list (concat b) 0"

definition no_empty :: "board \<Rightarrow> bool" where
  "no_empty b \<longleftrightarrow> (\<forall>r<9. \<forall>c<9. b ! r ! c \<noteq> 0)"

text \<open>Every cell holds a digit 1-9 or is empty.\<close>

definition digits_board :: "board \<Rightarrow> bool" where
  "digits_board b \<longleftrightarrow> (\<forall>r<9. \<forall>c<9. 0 \<le> b ! r ! c \<and> b ! r ! c \<le> 9)"

text \<open>The values of a list of cells, and a completed grid: every row, column and box
  holds a permutation of the digits 1-9.\<close>

definition values_at :: "board \<Rightarrow> pos list \<Rightarrow> int list" where
  "values_at b ps = map (\<lambda>p. b ! fst p ! snd p) ps"

definition perm_1_9 :: "int list \<Rightarrow> bool" where
  "perm_1_9 xs \<longleftrightarrow> mset xs = mset [1..9]"

definition solved :: "board \<Rightarrow> bool" where
  "solved b \<longleftrightarrow>
     list_all (\<lambda>r. perm_1_9 (values_at b (row_cells r))) [0..<9] \<and>
     list_all (\<lambda>c. perm_1_9 (values_at b (col_cells c))) [0..<9] \<and>
     list_all (\<lambda>r. list_all (\<lambda>c. perm_1_9 (values_at b (box_cells r c))) [0, 3, 6]) [0, 3, 6]"

text \<open>A board whose only non-empty cells are \<open>(r, c1)\<close> and \<open>(r, c2)\<close>, both holding the
  digit \<open>d\<close>.\<close>

definition two_in_row :: "board \<Rightarrow> nat \<Rightarrow> nat \<Rightarrow> nat \<Rightarrow> int \<Rightarrow> bool" where
  "two_in_row b r c1 c2 d \<longleftrightarrow>
     wf_board b \<and> r < 9 \<and> c1 < 9 \<and> c2 < 9 \<and> c1 \<noteq> c2 \<and> 1 \<le> d \<and> d \<le> 9 \<and>
     (\<forall>i<9. \<forall>j<9. b ! i ! j = (if i = r \<and> (j = c1 \<or> j = c2) then d else 0))"

section \<open>Invariant of the search\<close>

text \<open>
  \<open>search_inv b0 s\<close> relates a working board \<open>s\<close> to the board \<open>b0\<close> the search started
  from: \<open>s\<close> is 9x9, the non-empty cells of \<open>b0\<close> (the clues) are untouched, and every other
  cell is empty or holds a digit 1-9 that stands nowhere else in its row, column and box.
\<close>

definition search_inv :: "board \<Rightarrow> board \<Rightarrow> bool" where
  "search_inv b0 s \<longleftrightarrow>
     wf_board s \<and>
     (\<forall>r<9. \<forall>c<9.
        (b0 ! r ! c \<noteq> 0 \<longrightarrow> s ! r ! c = b0 ! r ! c) \<and>
        (b0 ! r ! c = 0 \<longrightarrow>
           0 \<le> s ! r ! c \<and> s ! r ! c \<le> 9 \<and>
           (s ! r ! c \<noteq> 0 \<longrightarrow> \<not> appears_elsewhere s r c (s ! r ! c))))"

text \<open>
  What a call on the working board \<open>b\<close> that returns \<open>(ok, b', log)\<close> guarantees: the
  invariant at every logged board and at the final one; a final board without empty cell
  on success, and the board of the call on failure.
\<close>

definition search_post :: "board \<Rightarrow> board \<Rightarrow> bool \<times> board \<times> board list \<Rightarrow> bool" where
  "search_post b0 b res \<longleftrightarrow>
     (case res of (ok, b', log) \<Rightarrow>
        list_all (search_inv b0) log \<and> search_inv b0 b' \<and>
        (if ok then no_empty b' else b' = b))"

text \<open>\<open>s\<close> is a completed grid that agrees with \<open>b\<close> on the non-empty cells of \<open>b\<close>.\<close>

definition completes :: "board \<Rightarrow> board \<Rightarrow> bool" where
  "completes s b \<longleftrightarrow>
     valid_board s \<and>
     (\<forall>r<9. \<forall>c<9. 1 \<le> s ! r ! c \<and> s ! r ! c \<le> 9 \<and> (b ! r ! c \<noteq> 0 \<longrightarrow> s ! r ! c = b ! r ! c))"

section \<open>Boards used as examples\<close>

definition empty_board :: board where
  "empty_board = replicate 9 (replicate 9 0)"

definition lone_five :: board where
  "lone_five = set_cell empty_board 0 0 5"

definition twin_fives :: board where
  "twin_fives = set_cell (set_cell empty_board 0 0 5) 0 8 5"

text \<open>
  A board on which the search fails after placing and clearing digits: cell (0, 0) accepts
  1 and 2, and either choice leaves no digit for cell (0, 1), whose column holds 1 and 2.
\<close>

definition backtrack_fail :: board where
  "backtrack_fail =
     [[0, 0, 3, 4, 5, 6, 7, 8, 9],
      [0, 0, 0, 0, 0, 0, 0, 0, 0],
      [0, 0, 0, 0, 0, 0, 0, 0, 0],
      [0, 1, 0, 0, 0, 0, 0, 0, 0],
      [0, 2, 0, 0, 0, 0, 0, 0, 0],
      [0, 0, 0, 0, 0, 0, 0, 0, 0],
      [0, 0, 0, 0, 0, 0, 0, 0, 0],
      [0, 0, 0, 0, 0, 0, 0, 0, 0],
      [0, 0, 0, 0, 0, 0, 0, 0, 0]]"

definition easy_board :: board where
  "easy_board =
     [[5, 3, 0, 0, 7, 0, 0, 0, 0],
      [6, 0, 0, 1, 9, 5, 0, 0, 0],
      [0, 9, 8, 0, 0, 0, 0, 6, 0],
      [8, 0, 0, 0, 6, 0, 0, 0, 3],
      [4, 0, 0, 8, 0, 3, 0, 0, 1],
      [7, 0, 0, 0, 2, 0, 0, 0, 6],
      [0, 6, 0, 0, 0, 0, 2, 8, 0],
      [0, 0, 0, 4, 1, 9, 0, 0, 5],
      [0, 0, 0, 0, 8, 0, 0, 7, 9]]"

definition easy_solution :: board where
  "easy_solution =
     [[5, 3, 4, 6, 7, 8, 9, 1, 2],
      [6, 7, 2, 1, 9, 5, 3, 4, 8],
      [1, 9, 8, 3, 4, 2, 5, 6, 7],
      [8, 5, 9, 7, 6, 1, 4, 2, 3],
      [4, 2, 6, 8, 5, 3, 7, 9, 1],
      [7, 1, 3, 9, 2, 4, 8, 5, 6],
      [9, 6, 1, 5, 3, 7, 2, 8, 4],
      [2, 8, 7, 4, 1, 9, 6, 3, 5],
      [3, 4, 5, 2, 8, 6, 1, 7, 9]]"

text \<open>The solution above with its last two cells blanked.\<close>

definition almost_solved :: board where
  "almost_solved = set_cell (set_cell easy_solution 8 7 0) 8 8 0"

section \<open>Reading and writing cells of a well-formed board\<close>

lemma cell_wf: "wf_board b \<Longrightarrow> r < 9 \<Longrightarrow> c < 9 \<Longrightarrow> cell b r c = Inr (Some (b ! r ! c))"
  by (simp add: cell_def wf_board_def)

lemma wf_set_cell: "wf_board b \<Longrightarrow> wf_board (set_cell b r c v)"
proof (cases "r < length b")
  case True
  assume wf: "wf_board b"
  then have "length ((b ! r)[c := v]) = 9"
    using True by (simp add: wf_board_def)
  moreover have "set (set_cell b r c v) \<subseteq> insert ((b ! r)[c := v]) (set b)"
    unfolding set_cell_def by (rule set_update_subset_insert)
  ultimately show ?thesis
    using wf unfolding wf_board_def by (auto simp: set_cell_def)
next
  case False
  assume "wf_board b"
  then show ?thesis
    using False by (simp add: set_cell_def list_update_beyond)
qed

lemma nth_set_cell:
  "wf_board b \<Longrightarrow> r < 9 \<Longrightarrow> c < 9 \<Longrightarrow> i < 9 \<Longrightarrow> j < 9 \<Longrightarrow>
   set_cell b r c v ! i ! j = (if i = r \<and> j = c then v else b ! i ! j)"
  by (simp add: set_cell_def wf_board_def nth_list_update)

lemma set_cell_same: "b ! r ! c = v \<Longrightarrow> set_cell b r c v = b"
  by (metis set_cell_def list_update_id)

lemma set_cell_twice: "set_cell (set_cell b r c u) r c v = set_cell b r c v"
  by (cases "r < length b") (simp_all add: set_cell_def list_update_beyond)

lemma set_cell_undo: "b ! r ! c = v \<Longrightarrow> set_cell (set_cell b r c u) r c v = b"
  by (simp add: set_cell_twice set_cell_same)

text \<open>
  The assignments of the core are in range on any board: a position that a scan returns,
  and a cell that was read as a number, lie inside the board.
\<close>

lemma first_eq_in_range:
  "first_eq b v ps = Inr (Some (r, c)) \<Longrightarrow> r < length b \<and> c < length (b ! r) \<and> b ! r ! c = v"
  by (induction ps) (auto simp: cell_def split: if_splits)

lemma findEmpty_in_range:
  "findEmpty b = Inr (Some (r, c)) \<Longrightarrow> r < length b \<and> c < length (b ! r) \<and> b ! r ! c = 0"
  unfolding findEmpty_def by (rule first_eq_in_range)

lemma cell_in_range:
  "cell b r c = Inr (Some v) \<Longrightarrow> r < length b \<and> c < length (b ! r) \<and> b ! r ! c = v"
  by (auto simp: cell_def split: if_splits)

section \<open>The positions the loops visit\<close>

lemma mem_row_cells: "(i, j) \<in> set (row_cells r) \<longleftrightarrow> i = r \<and> j < 9"
  by (auto simp: row_cells_def SIZE_def)

lemma mem_col_cells: "(i, j) \<in> set (col_cells c) \<longleftrightarrow> j = c \<and> i < 9"
  by (auto simp: col_cells_def SIZE_def)

lemma div3_cases: "(i::nat) div 3 = q \<longleftrightarrow> i = q * 3 \<or> i = q * 3 + 1 \<or> i = q * 3 + 2"
  by arith

lemma set_box_cells_raw:
  "set (box_cells r c) = {(r div 3 * 3 + i, c div 3 * 3 + j) | i j. i < 3 \<and> j < 3}"
  unfolding box_cells_def Let_def by auto

lemma less3: "(k::nat) < 3 \<longleftrightarrow> k = 0 \<or> k = 1 \<or> k = 2"
  by arith

lemma mem_box_cells:
  "(i, j) \<in> set (box_cells r c) \<longleftrightarrow> i div 3 = r div 3 \<and> j div 3 = c div 3"
  unfolding set_box_cells_raw div3_cases[of i] div3_cases[of j] less3
  by auto

lemma mem_all_cells: "(i, j) \<in> set all_cells \<longleftrightarrow> i < 9 \<and> j < 9"
  by (auto simp: all_cells_def SIZE_def image_iff)

lemma div3_less9: "(r::nat) < 9 \<Longrightarrow> i div 3 = r div 3 \<Longrightarrow> i < 9"
  by arith

lemma unit_cells_in_grid:
  assumes "r < 9" "c < 9"
  shows "\<forall>p \<in> set (row_cells r). fst p < 9 \<and> snd p < 9"
    and "\<forall>p \<in> set (col_cells c). fst p < 9 \<and> snd p < 9"
    and "\<forall>p \<in> set (box_cells r c). fst p < 9 \<and> snd p < 9"
  using assms div3_less9
  by (auto simp: mem_row_cells mem_col_cells mem_box_cells)

lemma all_cells_in_grid: "\<forall>p \<in> set all_cells. fst p < 9 \<and> snd p < 9"
  by (auto simp: mem_all_cells)

section \<open>The scans on a well-formed board\<close>

lemma first_eq_wf:
  "wf_board b \<Longrightarrow> \<forall>p \<in> set ps. fst p < 9 \<and> snd p < 9 \<Longrightarrow>
   first_eq b v ps = Inr (find (\<lambda>p. b ! fst p ! snd p = v) ps)"
  by (induction ps) (auto simp: cell_wf)

lemma find_Some_mem: "find P xs = Some a \<Longrightarrow> a \<in> set xs \<and> P a"
  by (induction xs) (auto split: if_splits)

lemma first_eq_case:
  assumes "wf_board b" "\<forall>p \<in> set ps. fst p < 9 \<and> snd p < 9"
  shows "(case first_eq b v ps of Inl e \<Rightarrow> Inl e | Inr None \<Rightarrow> K | Inr (Some x) \<Rightarrow> Inr False)
         = (if \<exists>p \<in> set ps. b ! fst p ! snd p = v then Inr False else K)"
proof (cases "find (\<lambda>p. b ! fst p ! snd p = v) ps")
  case None
  then have "first_eq b v ps = Inr None"
    using first_eq_wf[OF assms, of v] by simp
  moreover have "\<not> (\<exists>p \<in> set ps. b ! fst p ! snd p = v)"
    using None by (auto simp: find_None_iff)
  ultimately show ?thesis by simp
next
  case (Some a)
  then have "first_eq b v ps = Inr (Some a)"
    using first_eq_wf[OF assms, of v] by simp
  moreover have "\<exists>p \<in> set ps. b ! fst p ! snd p = v"
    using find_Some_mem[OF Some] by blast
  ultimately show ?thesis by simp
qed

lemma bex_pairs:
  "(\<exists>p \<in> set ps. b ! fst p ! snd p = d) \<longleftrightarrow> (\<exists>i j. (i, j) \<in> set ps \<and> b ! i ! j = d)"
  by (simp add: Bex_def)

lemma isSafe_wf:
  assumes "wf_board b" "r < 9" "c < 9"
  shows "isSafe b r c d = Inr (\<not> appears_in_units b r c d)"
proof -
  note g = unit_cells_in_grid[OF assms(2,3)]
  have "isSafe b r c d =
     Inr (\<not> ((\<exists>p \<in> set (row_cells r). b ! fst p ! snd p = d) \<or>
             (\<exists>p \<in> set (col_cells c). b ! fst p ! snd p = d) \<or>
             (\<exists>p \<in> set (box_cells r c). b ! fst p ! snd p = d)))"
    unfolding isSafe_def
    by (simp add: first_eq_case[OF assms(1)] g)
  also have "((\<exists>p \<in> set (row_cells r). b ! fst p ! snd p = d) \<or>
             (\<exists>p \<in> set (col_cells c). b ! fst p ! snd p = d) \<or>
             (\<exists>p \<in> set (box_cells r c). b ! fst p ! snd p = d))
    = appears_in_units b r c d"
    unfolding bex_pairs mem_row_cells mem_col_cells mem_box_cells appears_in_units_def same_unit_def
    using div3_less9[OF assms(2)] div3_less9[OF assms(3)] assms(2,3)
    by blast
  finally show ?thesis .
qed

lemma same_unit_self: "same_unit r c r c"
  by (simp add: same_unit_def)

lemma same_unit_sym: "same_unit r c i j \<Longrightarrow> same_unit i j r c"
  by (auto simp: same_unit_def)

lemma appears_in_unitsI:
  "i < 9 \<Longrightarrow> j < 9 \<Longrightarrow> same_unit r c i j \<Longrightarrow> b ! i ! j = d \<Longrightarrow> appears_in_units b r c d"
  by (auto simp: appears_in_units_def)

lemma appears_elsewhereI:
  "i < 9 \<Longrightarrow> j < 9 \<Longrightarrow> (i, j) \<noteq> (r, c) \<Longrightarrow> same_unit r c i j \<Longrightarrow> b ! i ! j = d \<Longrightarrow>
   appears_elsewhere b r c d"
  unfolding appears_elsewhere_def by blast

lemma appears_in_units_iff:
  "r < 9 \<Longrightarrow> c < 9 \<Longrightarrow>
   appears_in_units b r c d \<longleftrightarrow> b ! r ! c = d \<or> appears_elsewhere b r c d"
  unfolding appears_in_units_def appears_elsewhere_def
  using same_unit_self[of r c] by blast

lemma findEmpty_wf:
  "wf_board b \<Longrightarrow> findEmpty b = Inr (find (\<lambda>p. b ! fst p ! snd p = 0) all_cells)"
  unfolding findEmpty_def by (rule first_eq_wf[OF _ all_cells_in_grid])

lemma findEmpty_None: "wf_board b \<Longrightarrow> findEmpty b = Inr None \<longleftrightarrow> no_empty b"
  by (auto simp: findEmpty_wf find_None_iff no_empty_def mem_all_cells)

lemma findEmpty_Some:
  "wf_board b \<Longrightarrow> findEmpty b = Inr (Some (r, c)) \<Longrightarrow> r < 9 \<and> c < 9 \<and> b ! r ! c = 0"
  using find_Some_mem[of "\<lambda>p. b ! fst p ! snd p = 0" all_cells "(r, c)"]
  by (simp add: findEmpty_wf mem_all_cells)

lemma findEmpty_cases:
  assumes "wf_board b"
  obtains "findEmpty b = Inr None" "no_empty b"
  | r c where "findEmpty b = Inr (Some (r, c))" "r < 9" "c < 9" "b ! r ! c = 0"
proof (cases "find (\<lambda>p. b ! fst p ! snd p = 0) all_cells")
  case None
  then show ?thesis
    using that(1) findEmpty_wf[OF assms] findEmpty_None[OF assms] by simp
next
  case (Some p)
  then have "findEmpty b = Inr (Some (fst p, snd p))"
    using findEmpty_wf[OF assms] by simp
  then show ?thesis
    using that(2) findEmpty_Some[OF assms] by blast
qed

section \<open>Claims about the constraint checker\<close>

lemma nth_lone_five:
  "i < 9 \<Longrightarrow> j < 9 \<Longrightarrow> lone_five ! i ! j = (if i = 0 \<and> j = 0 then 5 else 0)"
  by (simp add: lone_five_def empty_board_def set_cell_def nth_list_update)

lemma wf_empty_board: "wf_board empty_board"
  by (simp add: wf_board_def empty_board_def)

text \<open>
  C1, as stated, fails: on the board whose only non-empty cell is (0, 0), holding 5,
  \<open>isSafe\<close> at (0, 0) for the digit 5 is false although 5 stands in no other cell. The
  scans of the row, the column and the box all pass over (r, c) itself.
\<close>

theorem isSafe_inspects_own_cell:
  "isSafe lone_five 0 0 5 = Inr False \<and> \<not> appears_elsewhere lone_five 0 0 5"
proof
  have "wf_board lone_five"
    unfolding lone_five_def by (rule wf_set_cell[OF wf_empty_board])
  moreover have "appears_in_units lone_five 0 0 5"
    by (rule appears_in_unitsI[of 0 0]) (simp_all add: same_unit_self nth_lone_five)
  ultimately show "isSafe lone_five 0 0 5 = Inr False"
    by (simp add: isSafe_wf)
  show "\<not> appears_elsewhere lone_five 0 0 5"
    unfolding appears_elsewhere_def by (auto simp: nth_lone_five)
qed

text \<open>
  C1, amended: on a 9x9 board, for coordinates in 0-8 and any value \<open>d\<close>, \<open>isSafe\<close>
  returns (without failing) false exactly when \<open>d\<close> stands in the cell (r, c) itself or in
  another cell of row r, column c or the box of (r, c), and true otherwise. So the value
  stored at (r, c) is inspected; when it differs from \<open>d\<close>, for instance when the cell is
  empty and \<open>d\<close> is a digit 1-9, the result is false exactly when \<open>d\<close> appears elsewhere in
  the three units.
\<close>

theorem isSafe_false_iff_in_units:
  assumes "wf_board b" "r < 9" "c < 9"
  shows "isSafe b r c d = Inr (\<not> (b ! r ! c = d \<or> appears_elsewhere b r c d))"
  using isSafe_wf[OF assms] appears_in_units_iff[OF assms(2,3)] by simp

theorem isSafe_false_iff_in_units_witness:
  "wf_board lone_five \<and> (0::nat) < 9 \<and>
   isSafe lone_five 0 0 5 = Inr (\<not> (lone_five ! 0 ! 0 = 5 \<or> appears_elsewhere lone_five 0 0 5)) \<and>
   isSafe lone_five 0 1 5 = Inr (\<not> (lone_five ! 0 ! 1 = 5 \<or> appears_elsewhere lone_five 0 1 5))"
proof -
  have w: "wf_board lone_five"
    unfolding lone_five_def by (rule wf_set_cell[OF wf_empty_board])
  show ?thesis
    using w isSafe_false_iff_in_units[OF w, of 0 0 5] isSafe_false_iff_in_units[OF w, of 0 1 5]
    by simp
qed

section \<open>Counting empty cells\<close>

lemma count_list_update:
  "i < length xs \<Longrightarrow>
   count_list (xs[i := v]) a + (if xs ! i = a then 1 else 0)
   = count_list xs a + (if v = a then 1 else 0)"
proof (induction xs arbitrary: i)
  case Nil
  then show ?case by simp
next
  case (Cons x xs)
  show ?case
  proof (cases i)
    case 0
    then show ?thesis by simp
  next
    case (Suc j)
    then have "j < length xs"
      using Cons.prems by simp
    from Cons.IH[OF this] show ?thesis
      using Suc by (auto split: if_splits)
  qed
qed

lemma count_list_concat:
  "count_list (concat xss) a = sum_list (map (\<lambda>xs. count_list xs a) xss)"
  by (induction xss) (simp_all add: count_list_append)

lemma sum_list_map_update:
  fixes f :: "'a \<Rightarrow> nat"
  shows "i < length xss \<Longrightarrow>
   sum_list (map f (xss[i := ys])) + f (xss ! i) = sum_list (map f xss) + f ys"
proof (induction xss arbitrary: i)
  case Nil
  then show ?case by simp
next
  case (Cons xs xss)
  show ?case
  proof (cases i)
    case 0
    then show ?thesis by simp
  next
    case (Suc j)
    then have "j < length xss"
      using Cons.prems by simp
    from Cons.IH[OF this] show ?thesis
      using Suc by simp
  qed
qed

lemma empties_set_cell:
  assumes "r < length b" "c < length (b ! r)" "b ! r ! c = 0" "v \<noteq> 0"
  shows "Suc (empties (set_cell b r c v)) = empties b"
proof -
  have "count_list ((b ! r)[c := v]) 0 + 1 = count_list (b ! r) 0"
    using count_list_update[OF assms(2), of v 0] assms(3,4) by simp
  moreover have "sum_list (map (\<lambda>xs. count_list xs 0) (b[r := (b ! r)[c := v]]))
      + count_list (b ! r) 0
    = sum_list (map (\<lambda>xs. count_list xs 0) b) + count_list ((b ! r)[c := v]) 0"
    by (rule sum_list_map_update[OF assms(1)])
  ultimately show ?thesis
    unfolding empties_def set_cell_def count_list_concat by linarith
qed

lemma empties_set_cell_wf:
  "wf_board b \<Longrightarrow> r < 9 \<Longrightarrow> c < 9 \<Longrightarrow> b ! r ! c = 0 \<Longrightarrow> v \<noteq> 0 \<Longrightarrow>
   Suc (empties (set_cell b r c v)) = empties b"
  by (rule empties_set_cell) (simp_all add: wf_board_def)

lemma sum_list_rows: "\<forall>row \<in> set b. length row = 9 \<Longrightarrow> sum_list (map length b) = 9 * length b"
  by (induction b) auto

lemma empties_le_81: "wf_board b \<Longrightarrow> empties b \<le> 81"
proof -
  assume "wf_board b"
  then have "length (concat b) = 81"
    by (simp add: wf_board_def length_concat sum_list_rows)
  then show ?thesis
    unfolding empties_def using count_le_length[of "concat b" 0] by simp
qed

section \<open>The logged search returns what the search returns\<close>

lemma try_digits_steps_result:
  assumes "\<And>x. rec x = (case rec' x of Inl e \<Rightarrow> Inl e | Inr (ok, b', log) \<Rightarrow> Inr (ok, b'))"
  shows "try_digits rec b r c ds =
     (case try_digits_steps rec' b r c ds of Inl e \<Rightarrow> Inl e | Inr (ok, b', log) \<Rightarrow> Inr (ok, b'))"
  by (induction ds arbitrary: b) (auto simp: assms split: sum.splits bool.splits prod.splits)

lemma solveSudoku_steps_result:
  "solveSudoku n b =
     (case solveSudoku_steps n b of Inl e \<Rightarrow> Inl e | Inr (ok, b', log) \<Rightarrow> Inr (ok, b'))"
proof (induction n arbitrary: b)
  case 0
  show ?case by simp
next
  case (Suc n)
  show ?case
    using try_digits_steps_result[of "solveSudoku n" "solveSudoku_steps n", OF Suc]
    by (simp split: sum.splits option.splits prod.splits)
qed

lemma solveSudoku_stepsD:
  "solveSudoku n b = Inr (ok, b') \<Longrightarrow> \<exists>log. solveSudoku_steps n b = Inr (ok, b', log)"
  by (auto simp: solveSudoku_steps_result[of n b] split: sum.splits prod.splits)

lemma solveSudoku_stepsI:
  "solveSudoku_steps n b = Inr (ok, b', log) \<Longrightarrow> solveSudoku n b = Inr (ok, b')"
  by (simp add: solveSudoku_steps_result[of n b])

section \<open>The search keeps its invariant\<close>

lemma search_inv_wf: "search_inv b0 s \<Longrightarrow> wf_board s"
  by (simp add: search_inv_def)

lemma search_inv_refl: "wf_board b \<Longrightarrow> search_inv b b"
  by (simp add: search_inv_def)

lemma search_inv_place:
  assumes inv: "search_inv b0 s" and rc: "r < 9" "c < 9" and z: "s ! r ! c = 0"
    and safe: "isSafe s r c d = Inr True" and d: "1 \<le> d" "d \<le> 9"
  shows "search_inv b0 (set_cell s r c d)"
proof -
  have wf: "wf_board s"
    using inv by (rule search_inv_wf)
  have fresh: "\<not> appears_in_units s r c d"
    using safe isSafe_wf[OF wf rc, of d] by simp
  have nth: "\<And>i j. i < 9 \<Longrightarrow> j < 9 \<Longrightarrow>
      set_cell s r c d ! i ! j = (if i = r \<and> j = c then d else s ! i ! j)"
    by (rule nth_set_cell[OF wf rc])
  have "(b0 ! i ! j \<noteq> 0 \<longrightarrow> set_cell s r c d ! i ! j = b0 ! i ! j) \<and>
        (b0 ! i ! j = 0 \<longrightarrow>
           0 \<le> set_cell s r c d ! i ! j \<and> set_cell s r c d ! i ! j \<le> 9 \<and>
           (set_cell s r c d ! i ! j \<noteq> 0 \<longrightarrow>
              \<not> appears_elsewhere (set_cell s r c d) i j (set_cell s r c d ! i ! j)))"
    if ij: "i < 9" "j < 9" for i j
  proof -
    have old: "(b0 ! i ! j \<noteq> 0 \<longrightarrow> s ! i ! j = b0 ! i ! j) \<and>
        (b0 ! i ! j = 0 \<longrightarrow> 0 \<le> s ! i ! j \<and> s ! i ! j \<le> 9 \<and>
           (s ! i ! j \<noteq> 0 \<longrightarrow> \<not> appears_elsewhere s i j (s ! i ! j)))"
      using inv ij by (simp add: search_inv_def)
    show ?thesis
    proof (cases "i = r \<and> j = c")
      case True
      have "\<not> appears_elsewhere (set_cell s r c d) r c d"
      proof
        assume "appears_elsewhere (set_cell s r c d) r c d"
        then obtain k l where kl: "k < 9" "l < 9" "(k, l) \<noteq> (r, c)" "same_unit r c k l"
          "set_cell s r c d ! k ! l = d"
          unfolding appears_elsewhere_def by blast
        then have "s ! k ! l = d"
          using nth[of k l] by auto
        then show False
          using fresh appears_in_unitsI[OF kl(1,2,4)] by blast
      qed
      then show ?thesis
        using True old z d nth[OF ij] by auto
    next
      case False
      have val: "set_cell s r c d ! i ! j = s ! i ! j"
        using False nth[OF ij] by auto
      have "\<not> appears_elsewhere (set_cell s r c d) i j (s ! i ! j)"
        if nz: "s ! i ! j \<noteq> 0" and nc: "b0 ! i ! j = 0"
      proof
        assume "appears_elsewhere (set_cell s r c d) i j (s ! i ! j)"
        then obtain k l where kl: "k < 9" "l < 9" "(k, l) \<noteq> (i, j)" "same_unit i j k l"
          "set_cell s r c d ! k ! l = s ! i ! j"
          unfolding appears_elsewhere_def by blast
        show False
        proof (cases "k = r \<and> l = c")
          case True
          then have "s ! i ! j = d"
            using kl(5) nth[OF kl(1,2)] by simp
          moreover have "same_unit r c i j"
            using kl(4) True same_unit_sym by blast
          ultimately show False
            using fresh appears_in_unitsI[OF ij, of r c s d] by blast
        next
          case False
          then have "s ! k ! l = s ! i ! j"
            using kl(5) nth[OF kl(1,2)] by auto
          then have "appears_elsewhere s i j (s ! i ! j)"
            using appears_elsewhereI[OF kl(1,2,3,4)] by blast
          then show False
            using old nz nc by blast
        qed
      qed
      then show ?thesis
        using old val by auto
    qed
  qed
  then show ?thesis
    unfolding search_inv_def[of b0 "set_cell s r c d"]
    using wf_set_cell[OF wf] by blast
qed

lemma isSafe_total: "wf_board b \<Longrightarrow> r < 9 \<Longrightarrow> c < 9 \<Longrightarrow> \<exists>x. isSafe b r c d = Inr x"
  by (simp add: isSafe_wf)

lemma try_digits_steps_sound:
  assumes rec: "\<And>b1 res. search_inv b0 b1 \<Longrightarrow> rec b1 = Inr res \<Longrightarrow> search_post b0 b1 res"
    and inv: "search_inv b0 b" and rc: "r < 9" "c < 9" and z: "b ! r ! c = 0"
  shows "\<forall>d \<in> set ds. 1 \<le> d \<and> d \<le> 9 \<Longrightarrow>
         try_digits_steps rec b r c ds = Inr res \<Longrightarrow> search_post b0 b res"
proof (induction ds arbitrary: res)
  case Nil
  then show ?case
    using inv by (auto simp: search_post_def)
next
  case (Cons d ds)
  have dr: "1 \<le> d" "d \<le> 9" and dsr: "\<forall>d \<in> set ds. 1 \<le> d \<and> d \<le> 9"
    using Cons.prems(1) by auto
  have wf: "wf_board b"
    using inv by (rule search_inv_wf)
  obtain x where x: "isSafe b r c d = Inr x"
    using isSafe_total[OF wf rc] by blast
  show ?case
  proof (cases x)
    case False
    then have "try_digits_steps rec b r c ds = Inr res"
      using Cons.prems(2) x by simp
    then show ?thesis
      by (rule Cons.IH[OF dsr])
  next
    case True
    note xT = True
    let ?b1 = "set_cell b r c d"
    have inv1: "search_inv b0 ?b1"
      using search_inv_place[OF inv rc z _ dr] x True by simp
    obtain ok1 b1' log1 where r1: "rec ?b1 = Inr (ok1, b1', log1)"
      using Cons.prems(2) x True by (auto split: sum.splits)
    have post1: "search_post b0 ?b1 (ok1, b1', log1)"
      by (rule rec[OF inv1 r1])
    show ?thesis
    proof (cases ok1)
      case True
      then have "res = (True, b1', ?b1 # log1)"
        using Cons.prems(2) x xT r1 by simp
      then show ?thesis
        using post1 True inv1 by (simp add: search_post_def)
    next
      case False
      then have same: "b1' = ?b1"
        using post1 by (simp add: search_post_def)
      have restored: "set_cell b1' r c 0 = b"
        unfolding same using z by (rule set_cell_undo)
      obtain ok2 b2' log2 where r2: "try_digits_steps rec b r c ds = Inr (ok2, b2', log2)"
        using Cons.prems(2) x xT r1 False restored by (auto split: sum.splits)
      have post2: "search_post b0 b (ok2, b2', log2)"
        by (rule Cons.IH[OF dsr r2])
      have "res = (ok2, b2', ?b1 # log1 @ b # log2)"
        using Cons.prems(2) x xT r1 False restored r2 by simp
      then show ?thesis
        using post1 post2 inv1 inv by (simp add: search_post_def)
    qed
  qed
qed

lemma digits_1_9: "\<forall>d \<in> set [1..9]. 1 \<le> d \<and> d \<le> (9::int)"
  by simp

lemma solveSudoku_steps_sound:
  "search_inv b0 b \<Longrightarrow> solveSudoku_steps n b = Inr res \<Longrightarrow> search_post b0 b res"
proof (induction n arbitrary: b res)
  case 0
  then show ?case by simp
next
  case (Suc n)
  have wf: "wf_board b"
    using Suc.prems(1) by (rule search_inv_wf)
  show ?case
  proof (cases rule: findEmpty_cases[OF wf])
    case 1
    then have "res = (True, b, [])"
      using Suc.prems(2) by simp
    then show ?thesis
      using 1 Suc.prems(1) by (simp add: search_post_def)
  next
    case (2 r c)
    have "try_digits_steps (solveSudoku_steps n) b r c [1..9] = Inr res"
      using Suc.prems(2) 2(1) by simp
    then show ?thesis
      using try_digits_steps_sound[of b0 "solveSudoku_steps n", OF Suc.IH Suc.prems(1) 2(2,3,4)
          digits_1_9]
      by blast
  qed
qed

lemma solveSudoku_steps_post:
  "wf_board b \<Longrightarrow> solveSudoku_steps n b = Inr res \<Longrightarrow> search_post b b res"
  by (rule solveSudoku_steps_sound[OF search_inv_refl])

lemma solveSudoku_post:
  assumes "wf_board b" "solveSudoku n b = Inr (ok, b')"
  shows "search_inv b b' \<and> (if ok then no_empty b' else b' = b)"
proof -
  obtain log where "solveSudoku_steps n b = Inr (ok, b', log)"
    using solveSudoku_stepsD[OF assms(2)] by blast
  from solveSudoku_steps_post[OF assms(1) this] show ?thesis
    by (simp add: search_post_def)
qed

section \<open>The search returns\<close>

lemma try_digits_steps_total:
  assumes rec: "\<And>b1. wf_board b1 \<Longrightarrow> empties b1 < n \<Longrightarrow> \<exists>res. rec b1 = Inr res"
    and keep: "\<And>b1 b' log. wf_board b1 \<Longrightarrow> rec b1 = Inr (False, b', log) \<Longrightarrow> b' = b1"
    and wf: "wf_board b" and rc: "r < 9" "c < 9" and z: "b ! r ! c = 0"
    and e: "empties b < Suc n"
  shows "\<forall>d \<in> set ds. d \<noteq> 0 \<Longrightarrow> \<exists>res. try_digits_steps rec b r c ds = Inr res"
proof (induction ds)
  case Nil
  show ?case by auto
next
  case (Cons d ds)
  have d: "d \<noteq> 0" and ds: "\<forall>d \<in> set ds. d \<noteq> 0"
    using Cons.prems by auto
  obtain ok2 b2' log2 where r2: "try_digits_steps rec b r c ds = Inr (ok2, b2', log2)"
    using Cons.IH[OF ds] by (metis prod_cases3)
  obtain x where x: "isSafe b r c d = Inr x"
    using isSafe_total[OF wf rc] by blast
  show ?case
  proof (cases x)
    case False
    then show ?thesis
      using x r2 by auto
  next
    case True
    note xT = True
    let ?b1 = "set_cell b r c d"
    have wf1: "wf_board ?b1"
      by (rule wf_set_cell[OF wf])
    have "empties ?b1 < n"
      using empties_set_cell_wf[OF wf rc z d] e by simp
    then obtain ok1 b1' log1 where r1: "rec ?b1 = Inr (ok1, b1', log1)"
      using rec[OF wf1] by (metis prod_cases3)
    show ?thesis
    proof (cases ok1)
      case True
      then show ?thesis
        using x xT r1 by auto
    next
      case False
      then have "b1' = ?b1"
        using keep[OF wf1] r1 by simp
      then have "set_cell b1' r c 0 = b"
        using z by (simp add: set_cell_undo)
      then show ?thesis
        using x xT r1 False r2 by auto
    qed
  qed
qed

lemma digits_nonzero: "\<forall>d \<in> set [1..9]. d \<noteq> (0::int)"
  by simp

lemma solveSudoku_steps_keep:
  "wf_board b \<Longrightarrow> solveSudoku_steps n b = Inr (False, b', log) \<Longrightarrow> b' = b"
  using solveSudoku_steps_post[of b n "(False, b', log)"] by (simp add: search_post_def)

lemma solveSudoku_steps_total:
  "wf_board b \<Longrightarrow> empties b < n \<Longrightarrow> \<exists>res. solveSudoku_steps n b = Inr res"
proof (induction n arbitrary: b)
  case 0
  then show ?case by simp
next
  case (Suc n)
  show ?case
  proof (cases rule: findEmpty_cases[OF Suc.prems(1)])
    case 1
    then show ?thesis by auto
  next
    case (2 r c)
    have "\<exists>res. try_digits_steps (solveSudoku_steps n) b r c [1..9] = Inr res"
      by (rule try_digits_steps_total[of n "solveSudoku_steps n", OF Suc.IH solveSudoku_steps_keep
            Suc.prems(1) 2(2,3,4) Suc.prems(2) digits_nonzero])
    then show ?thesis
      using 2(1) by simp
  qed
qed

lemma solveSudoku_total:
  assumes "wf_board b" "empties b < n"
  shows "\<exists>ok b'. solveSudoku n b = Inr (ok, b')"
proof -
  obtain ok b' log where "solveSudoku_steps n b = Inr (ok, b', log)"
    using solveSudoku_steps_total[OF assms] by (metis prod_cases3)
  then show ?thesis
    using solveSudoku_stepsI by blast
qed

section \<open>The search finds a completion when there is one\<close>

lemma completes_safe:
  assumes s: "completes s b" and wf: "wf_board b" and rc: "r < 9" "c < 9" and z: "b ! r ! c = 0"
  shows "isSafe b r c (s ! r ! c) = Inr True"
proof -
  have "\<not> appears_in_units b r c (s ! r ! c)"
  proof
    assume "appears_in_units b r c (s ! r ! c)"
    then obtain i j where ij: "i < 9" "j < 9" "same_unit r c i j" "b ! i ! j = s ! r ! c"
      unfolding appears_in_units_def by blast
    have nz: "s ! r ! c \<noteq> 0"
      using s rc unfolding completes_def by force
    then have "(i, j) \<noteq> (r, c)"
      using ij(4) z by auto
    moreover have "s ! i ! j = s ! r ! c"
      using s ij nz unfolding completes_def by force
    ultimately have "appears_elsewhere s r c (s ! r ! c)"
      using appears_elsewhereI[OF ij(1,2) _ ij(3)] by blast
    then show False
      using s rc nz unfolding completes_def valid_board_def by blast
  qed
  then show ?thesis
    by (simp add: isSafe_wf[OF wf rc])
qed

lemma completes_place:
  assumes s: "completes s b" and wf: "wf_board b" and rc: "r < 9" "c < 9"
  shows "completes s (set_cell b r c (s ! r ! c))"
  using s unfolding completes_def
  by (auto simp: nth_set_cell[OF wf rc])

lemma try_digits_steps_complete:
  assumes rec: "\<And>b1. wf_board b1 \<Longrightarrow> empties b1 < n \<Longrightarrow> \<exists>res. rec b1 = Inr res"
    and keep: "\<And>b1 b' log. wf_board b1 \<Longrightarrow> rec b1 = Inr (False, b', log) \<Longrightarrow> b' = b1"
    and wf: "wf_board b" and rc: "r < 9" "c < 9" and z: "b ! r ! c = 0"
    and e: "empties b < Suc n"
    and safe: "isSafe b r c g = Inr True"
    and good: "\<exists>b' log. rec (set_cell b r c g) = Inr (True, b', log)"
  shows "\<forall>d \<in> set ds. d \<noteq> 0 \<Longrightarrow> g \<in> set ds \<Longrightarrow>
         \<exists>b' log. try_digits_steps rec b r c ds = Inr (True, b', log)"
proof (induction ds)
  case Nil
  then show ?case by simp
next
  case (Cons d ds)
  have d: "d \<noteq> 0" and ds: "\<forall>d \<in> set ds. d \<noteq> 0"
    using Cons.prems(1) by auto
  obtain x where x: "isSafe b r c d = Inr x"
    using isSafe_total[OF wf rc] by blast
  show ?case
  proof (cases x)
    case False
    then have "g \<noteq> d"
      using x safe by auto
    then have "g \<in> set ds"
      using Cons.prems(2) by simp
    then show ?thesis
      using Cons.IH[OF ds] x False by simp
  next
    case True
    note xT = True
    let ?b1 = "set_cell b r c d"
    have wf1: "wf_board ?b1"
      by (rule wf_set_cell[OF wf])
    have "empties ?b1 < n"
      using empties_set_cell_wf[OF wf rc z d] e by simp
    then obtain ok1 b1' log1 where r1: "rec ?b1 = Inr (ok1, b1', log1)"
      using rec[OF wf1] by (metis prod_cases3)
    show ?thesis
    proof (cases ok1)
      case True
      then show ?thesis
        using x xT r1 by simp
    next
      case False
      then have "g \<noteq> d"
        using good r1 by auto
      then have "g \<in> set ds"
        using Cons.prems(2) by simp
      then obtain b2' log2 where r2: "try_digits_steps rec b r c ds = Inr (True, b2', log2)"
        using Cons.IH[OF ds] by blast
      have "b1' = ?b1"
        using keep[OF wf1] r1 False by simp
      then have "set_cell b1' r c 0 = b"
        using z by (simp add: set_cell_undo)
      then show ?thesis
        using x xT r1 False r2 by simp
    qed
  qed
qed

lemma completes_digit: "completes s b \<Longrightarrow> r < 9 \<Longrightarrow> c < 9 \<Longrightarrow> s ! r ! c \<in> set [1..9]"
  unfolding completes_def by force

lemma solveSudoku_steps_complete:
  "completes s b \<Longrightarrow> wf_board b \<Longrightarrow> empties b < n \<Longrightarrow>
   \<exists>b' log. solveSudoku_steps n b = Inr (True, b', log)"
proof (induction n arbitrary: b)
  case 0
  then show ?case by simp
next
  case (Suc n)
  note wf = Suc.prems(2)
  show ?case
  proof (cases rule: findEmpty_cases[OF wf])
    case 1
    then show ?thesis by simp
  next
    case (2 r c)
    let ?g = "s ! r ! c"
    let ?b1 = "set_cell b r c ?g"
    have g: "?g \<in> set [1..9]"
      by (rule completes_digit[OF Suc.prems(1) 2(2,3)])
    then have "?g \<noteq> 0"
      by auto
    then have "empties ?b1 < n"
      using empties_set_cell_wf[OF wf 2(2,3,4)] Suc.prems(3) by fastforce
    then have good: "\<exists>b' log. solveSudoku_steps n ?b1 = Inr (True, b', log)"
      using Suc.IH[OF completes_place[OF Suc.prems(1) wf 2(2,3)] wf_set_cell[OF wf]] by blast
    have "\<exists>b' log. try_digits_steps (solveSudoku_steps n) b r c [1..9] = Inr (True, b', log)"
      by (rule try_digits_steps_complete[of n "solveSudoku_steps n", OF solveSudoku_steps_total
            solveSudoku_steps_keep wf 2(2,3,4) Suc.prems(3)
            completes_safe[OF Suc.prems(1) wf 2(2,3,4)] good digits_nonzero g])
    then show ?thesis
      using 2(1) by simp
  qed
qed

section \<open>The validator on a well-formed board\<close>

lemma blank_appears:
  assumes "wf_board b" "r < 9" "c < 9" "v \<noteq> 0"
  shows "appears_in_units (set_cell b r c 0) r c v \<longleftrightarrow> appears_elsewhere b r c v"
proof
  assume "appears_in_units (set_cell b r c 0) r c v"
  then obtain i j where ij: "i < 9" "j < 9" "same_unit r c i j" "set_cell b r c 0 ! i ! j = v"
    unfolding appears_in_units_def by blast
  then have "(i, j) \<noteq> (r, c) \<and> b ! i ! j = v"
    using nth_set_cell[OF assms(1,2,3) ij(1,2), of 0] assms(4) by (auto split: if_splits)
  then show "appears_elsewhere b r c v"
    using appears_elsewhereI[OF ij(1,2) _ ij(3)] by blast
next
  assume "appears_elsewhere b r c v"
  then obtain i j where ij: "i < 9" "j < 9" "(i, j) \<noteq> (r, c)" "same_unit r c i j" "b ! i ! j = v"
    unfolding appears_elsewhere_def by blast
  then have "set_cell b r c 0 ! i ! j = v"
    using nth_set_cell[OF assms(1,2,3) ij(1,2), of 0] by auto
  then show "appears_in_units (set_cell b r c 0) r c v"
    by (rule appears_in_unitsI[OF ij(1,2,4)])
qed

lemma validate_cells_wf:
  assumes wf: "wf_board b"
  shows "\<forall>p \<in> set ps. fst p < 9 \<and> snd p < 9 \<Longrightarrow>
     validate_cells ps (b, valid, invalid) =
       Inr (b, valid \<and> (\<forall>p \<in> set ps. \<not> in_conflict b p), invalid @ filter (in_conflict b) ps)"
proof (induction ps arbitrary: valid invalid)
  case Nil
  show ?case by simp
next
  case (Cons p ps)
  obtain r c where p: "p = (r, c)"
    by (cases p)
  have rc: "r < 9" "c < 9" and rest: "\<forall>p \<in> set ps. fst p < 9 \<and> snd p < 9"
    using Cons.prems p by auto
  note IH = Cons.IH[OF rest]
  have rd: "cell b r c = Inr (Some (b ! r ! c))"
    by (rule cell_wf[OF wf rc])
  show ?case
  proof (cases "b ! r ! c = 0")
    case True
    then have "\<not> in_conflict b (r, c)"
      by (simp add: in_conflict_def)
    then show ?thesis
      using True rd IH p by simp
  next
    case False
    have "isSafe (set_cell b r c 0) r c (b ! r ! c) = Inr (\<not> appears_elsewhere b r c (b ! r ! c))"
      using isSafe_wf[OF wf_set_cell[OF wf] rc] blank_appears[OF wf rc False] by simp
    moreover have "in_conflict b (r, c) \<longleftrightarrow> appears_elsewhere b r c (b ! r ! c)"
      using False by (simp add: in_conflict_def)
    moreover have "set_cell (set_cell b r c 0) r c (b ! r ! c) = b"
      by (simp add: set_cell_undo)
    ultimately show ?thesis
      using False rd IH p by simp
  qed
qed

lemma validateBoard_wf:
  "wf_board b \<Longrightarrow>
   validateBoard b =
     Inr (\<forall>p \<in> set all_cells. \<not> in_conflict b p, filter (in_conflict b) all_cells, b)"
  unfolding validateBoard_def
  by (simp add: validate_cells_wf[OF _ all_cells_in_grid])

lemma valid_board_iff: "valid_board b \<longleftrightarrow> (\<forall>p \<in> set all_cells. \<not> in_conflict b p)"
proof -
  have "(\<forall>p \<in> set all_cells. \<not> in_conflict b p)
        \<longleftrightarrow> (\<forall>r c. (r, c) \<in> set all_cells \<longrightarrow> \<not> in_conflict b (r, c))"
    by auto
  then show ?thesis
    unfolding mem_all_cells valid_board_def in_conflict_def by auto
qed

lemma validateBoard_valid:
  "wf_board b \<Longrightarrow> validateBoard b = Inr (True, [], b) \<Longrightarrow> valid_board b"
  by (simp add: validateBoard_wf valid_board_iff)

section \<open>Facts about the example boards\<close>

lemma all_grid_iff:
  "(\<forall>r<9. \<forall>c<9. P r c) \<longleftrightarrow> list_all (\<lambda>p. P (fst p) (snd p)) all_cells"
proof -
  have "list_all (\<lambda>p. P (fst p) (snd p)) all_cells
        \<longleftrightarrow> (\<forall>r c. (r, c) \<in> set all_cells \<longrightarrow> P r c)"
    by (auto simp: list_all_iff)
  then show ?thesis
    unfolding mem_all_cells by auto
qed

lemma wf_lone_five: "wf_board lone_five"
  unfolding lone_five_def by (rule wf_set_cell[OF wf_empty_board])

lemma wf_twin_fives: "wf_board twin_fives"
  unfolding twin_fives_def by (intro wf_set_cell wf_empty_board)

lemma wf_backtrack_fail: "wf_board backtrack_fail"
  by (simp add: wf_board_def backtrack_fail_def)

lemma wf_easy_board: "wf_board easy_board"
  by (simp add: wf_board_def easy_board_def)

lemma wf_easy_solution: "wf_board easy_solution"
  by (simp add: wf_board_def easy_solution_def)

lemma loadPuzzle_easy: "loadPuzzle PUZZLE_easy = Some easy_board"
  by code_simp

lemma validateBoard_easy_board: "validateBoard easy_board = Inr (True, [], easy_board)"
  by code_simp

lemma validateBoard_easy_solution: "validateBoard easy_solution = Inr (True, [], easy_solution)"
  by code_simp

lemma valid_easy_board: "valid_board easy_board"
  by (rule validateBoard_valid[OF wf_easy_board validateBoard_easy_board])

lemma valid_easy_solution: "valid_board easy_solution"
  by (rule validateBoard_valid[OF wf_easy_solution validateBoard_easy_solution])

lemma no_empty_easy_solution: "no_empty easy_solution"
  unfolding no_empty_def all_grid_iff by code_simp

lemma completes_easy: "completes easy_solution easy_board"
proof -
  have "list_all (\<lambda>p. 1 \<le> easy_solution ! fst p ! snd p \<and> easy_solution ! fst p ! snd p \<le> 9 \<and>
           (easy_board ! fst p ! snd p \<noteq> 0 \<longrightarrow>
              easy_solution ! fst p ! snd p = easy_board ! fst p ! snd p)) all_cells"
    by code_simp
  then show ?thesis
    unfolding completes_def all_grid_iff using valid_easy_solution by simp
qed

lemma backtrack_fail_steps:
  "solveSudoku_steps 2 backtrack_fail =
     Inr (False, backtrack_fail,
          [set_cell backtrack_fail 0 0 1, backtrack_fail,
           set_cell backtrack_fail 0 0 2, backtrack_fail])"
  by code_simp

lemma backtrack_fail_fails: "solveSudoku 2 backtrack_fail = Inr (False, backtrack_fail)"
  by code_simp

lemma backtrack_fail_placed: "set_cell backtrack_fail 0 0 1 \<noteq> backtrack_fail"
  by code_simp

section \<open>Consequences of the invariant\<close>

lemma search_inv_valid:
  assumes v: "valid_board b0" and inv: "search_inv b0 s"
  shows "valid_board s"
  unfolding valid_board_def
proof (intro allI impI)
  fix r c
  assume rc: "r < 9" "c < 9" and nz: "s ! r ! c \<noteq> 0"
  show "\<not> appears_elsewhere s r c (s ! r ! c)"
  proof (cases "b0 ! r ! c = 0")
    case True
    then show ?thesis
      using inv rc nz unfolding search_inv_def by blast
  next
    case False
    then have eq: "s ! r ! c = b0 ! r ! c"
      using inv rc unfolding search_inv_def by blast
    show ?thesis
    proof
      assume "appears_elsewhere s r c (s ! r ! c)"
      then obtain i j where ij: "i < 9" "j < 9" "(i, j) \<noteq> (r, c)" "same_unit r c i j"
        "s ! i ! j = s ! r ! c"
        unfolding appears_elsewhere_def by blast
      show False
      proof (cases "b0 ! i ! j = 0")
        case True
        have "appears_elsewhere s i j (s ! i ! j)"
          using appears_elsewhereI[OF rc _ same_unit_sym[OF ij(4)], of s "s ! i ! j"] ij(3,5)
          by auto
        moreover have "s ! i ! j \<noteq> 0"
          using ij(5) nz by simp
        ultimately show False
          using inv ij(1,2) True unfolding search_inv_def by blast
      next
        case False
        then have "b0 ! i ! j = b0 ! r ! c"
          using inv ij(1,2,5) eq unfolding search_inv_def by force
        then have "appears_elsewhere b0 r c (b0 ! r ! c)"
          using appears_elsewhereI[OF ij(1,2,3,4)] by blast
        then show False
          using v rc \<open>b0 ! r ! c \<noteq> 0\<close> unfolding valid_board_def by blast
      qed
    qed
  qed
qed

lemma search_inv_digits:
  assumes dg: "digits_board b0" and inv: "search_inv b0 s"
  shows "digits_board s"
  unfolding digits_board_def
proof (intro allI impI)
  fix r c :: nat
  assume rc: "r < 9" "c < 9"
  have old: "0 \<le> b0 ! r ! c \<and> b0 ! r ! c \<le> 9"
    using dg rc unfolding digits_board_def by blast
  show "0 \<le> s ! r ! c \<and> s ! r ! c \<le> 9"
  proof (cases "b0 ! r ! c = 0")
    case True
    then show ?thesis
      using inv rc unfolding search_inv_def by blast
  next
    case False
    then have "s ! r ! c = b0 ! r ! c"
      using inv rc unfolding search_inv_def by blast
    then show ?thesis
      using old by simp
  qed
qed

lemma search_inv_clue:
  "search_inv b0 s \<Longrightarrow> r < 9 \<Longrightarrow> c < 9 \<Longrightarrow> b0 ! r ! c \<noteq> 0 \<Longrightarrow> s ! r ! c = b0 ! r ! c"
  unfolding search_inv_def by blast

section \<open>A valid board without empty cell is a completed grid\<close>

lemma unit_perm:
  assumes v: "valid_board s" and ne: "no_empty s" and dg: "digits_board s"
    and ps: "distinct ps" "length ps = 9" "\<forall>p \<in> set ps. fst p < 9 \<and> snd p < 9"
    and un: "\<forall>p \<in> set ps. \<forall>q \<in> set ps. same_unit (fst p) (snd p) (fst q) (snd q)"
  shows "perm_1_9 (values_at s ps)"
proof -
  let ?f = "\<lambda>p. s ! fst p ! snd p"
  have inj: "inj_on ?f (set ps)"
  proof (rule inj_onI)
    fix p q
    assume pq: "p \<in> set ps" "q \<in> set ps" and eq: "?f p = ?f q"
    show "p = q"
    proof (rule ccontr)
      assume neq: "p \<noteq> q"
      have "appears_elsewhere s (fst p) (snd p) (?f p)"
      proof (rule appears_elsewhereI[of "fst q" "snd q"])
        show "fst q < 9" and "snd q < 9"
          using ps(3) pq(2) by blast+
        show "(fst q, snd q) \<noteq> (fst p, snd p)"
          using neq by (auto simp: prod_eq_iff)
        show "same_unit (fst p) (snd p) (fst q) (snd q)"
          using un pq by blast
        show "s ! fst q ! snd q = ?f p"
          using eq by simp
      qed
      moreover have "?f p \<noteq> 0"
        using ne ps(3) pq(1) unfolding no_empty_def by blast
      ultimately show False
        using v ps(3) pq(1) unfolding valid_board_def by blast
    qed
  qed
  have dist: "distinct (values_at s ps)"
    unfolding values_at_def using inj ps(1) distinct_map[of ?f ps] by blast
  have sub: "set (values_at s ps) \<subseteq> {1..9}"
  proof
    fix x
    assume "x \<in> set (values_at s ps)"
    then have "x \<in> ?f ` set ps"
      by (simp add: values_at_def)
    then obtain p where p: "p \<in> set ps" "x = ?f p"
      by (rule imageE)
    have rc: "fst p < 9" "snd p < 9"
      using ps(3) p(1) by blast+
    have "0 \<le> s ! fst p ! snd p \<and> s ! fst p ! snd p \<le> 9"
      using dg rc by (simp add: digits_board_def)
    moreover have "s ! fst p ! snd p \<noteq> 0"
      using ne rc by (simp add: no_empty_def)
    ultimately show "x \<in> {1..9}"
      using p(2) by simp
  qed
  have "length (values_at s ps) = 9"
    using ps(2) by (simp add: values_at_def)
  then have "card (set (values_at s ps)) = card {1..9::int}"
    using distinct_card[OF dist] by simp
  then have "set (values_at s ps) = {1..9}"
    by (intro card_subset_eq sub) simp_all
  then have "set (values_at s ps) = set [1..9]"
    by simp
  then have "mset (values_at s ps) = mset [1..9]"
    using set_eq_iff_mset_eq_distinct[OF dist distinct_upto, of 1 9] by simp
  then show ?thesis
    by (simp only: perm_1_9_def)
qed

lemma row_cells_shape: "distinct (row_cells r) \<and> length (row_cells r) = 9"
  by (simp add: row_cells_def SIZE_def distinct_map inj_on_def)

lemma col_cells_shape: "distinct (col_cells c) \<and> length (col_cells c) = 9"
  by (simp add: col_cells_def SIZE_def distinct_map inj_on_def)

lemma upt_0_3: "[0..<3] = [0, 1, 2]"
  by code_simp

lemma box_cells_eq: "box_cells r c = map (\<lambda>(i, j). (r div 3 * 3 + i, c div 3 * 3 + j)) (box_cells 0 0)"
  by (simp add: box_cells_def Let_def upt_0_3)

lemma box_cells_shape: "distinct (box_cells r c) \<and> length (box_cells r c) = 9"
proof -
  have "distinct (box_cells 0 0) \<and> length (box_cells 0 0) = 9"
    by code_simp
  moreover have "inj_on (\<lambda>(i, j). (r div 3 * 3 + i, c div 3 * 3 + j)) (set (box_cells 0 0))"
    by (auto simp: inj_on_def)
  ultimately show ?thesis
    unfolding box_cells_eq[of r c] by (simp add: distinct_map)
qed

lemma same_row_unit:
  "\<forall>p \<in> set (row_cells r). \<forall>q \<in> set (row_cells r). same_unit (fst p) (snd p) (fst q) (snd q)"
  by (auto simp: mem_row_cells same_unit_def)

lemma same_col_unit:
  "\<forall>p \<in> set (col_cells c). \<forall>q \<in> set (col_cells c). same_unit (fst p) (snd p) (fst q) (snd q)"
  by (auto simp: mem_col_cells same_unit_def)

lemma same_box_unit:
  "\<forall>p \<in> set (box_cells r c). \<forall>q \<in> set (box_cells r c).
     same_unit (fst p) (snd p) (fst q) (snd q)"
  by (auto simp: mem_box_cells same_unit_def)

lemma solved_if_valid:
  assumes v: "valid_board s" and ne: "no_empty s" and dg: "digits_board s"
  shows "solved s"
proof -
  have rows: "perm_1_9 (values_at s (row_cells r))" if "r < 9" for r
    using row_cells_shape[of r]
    by (intro unit_perm[OF v ne dg _ _ unit_cells_in_grid(1)[OF that that] same_row_unit]) simp_all
  have cols: "perm_1_9 (values_at s (col_cells c))" if "c < 9" for c
    using col_cells_shape[of c]
    by (intro unit_perm[OF v ne dg _ _ unit_cells_in_grid(2)[OF that that] same_col_unit]) simp_all
  have boxes: "perm_1_9 (values_at s (box_cells r c))" if "r < 9" "c < 9" for r c
    using box_cells_shape[of r c]
    by (intro unit_perm[OF v ne dg _ _ unit_cells_in_grid(3)[OF that] same_box_unit]) simp_all
  have "list_all (\<lambda>r. perm_1_9 (values_at s (row_cells r))) [0..<9]"
    using rows by (simp add: list_all_iff)
  moreover have "list_all (\<lambda>c. perm_1_9 (values_at s (col_cells c))) [0..<9]"
    using cols by (simp add: list_all_iff)
  moreover have "list_all (\<lambda>r. list_all (\<lambda>c. perm_1_9 (values_at s (box_cells r c))) [0, 3, 6]) [0, 3, 6]"
    using boxes by simp
  ultimately show ?thesis
    by (simp only: solved_def)
qed

section \<open>A larger stack budget does not change a result\<close>

lemma try_digits_mono:
  assumes "\<And>x y. rec x = Inr y \<Longrightarrow> rec' x = Inr y"
  shows "try_digits rec b r c ds = Inr y \<Longrightarrow> try_digits rec' b r c ds = Inr y"
proof (induction ds arbitrary: b y)
  case Nil
  then show ?case by simp
next
  case (Cons d ds)
  show ?case
  proof (cases "isSafe b r c d")
    case (Inl e)
    then show ?thesis
      using Cons.prems by simp
  next
    case (Inr x)
    show ?thesis
    proof (cases x)
      case False
      then show ?thesis
        using Cons.prems Inr Cons.IH by simp
    next
      case True
      then obtain ok1 b1 where r1: "rec (set_cell b r c d) = Inr (ok1, b1)"
        using Cons.prems Inr by (auto split: sum.splits)
      then have r1': "rec' (set_cell b r c d) = Inr (ok1, b1)"
        by (rule assms)
      show ?thesis
      proof (cases ok1)
        case True
        then show ?thesis
          using Cons.prems Inr \<open>x\<close> r1 r1' by auto
      next
        case False
        then have "try_digits rec (set_cell b1 r c 0) r c ds = Inr y"
          using Cons.prems Inr \<open>x\<close> r1 by simp
        then have "try_digits rec' (set_cell b1 r c 0) r c ds = Inr y"
          by (rule Cons.IH)
        then show ?thesis
          using Inr \<open>x\<close> r1' False by simp
      qed
    qed
  qed
qed

lemma solveSudoku_Suc_mono: "solveSudoku n b = Inr y \<Longrightarrow> solveSudoku (Suc n) b = Inr y"
proof (induction n arbitrary: b y)
  case 0
  then show ?case by simp
next
  case (Suc n)
  show ?case
  proof (cases "findEmpty b")
    case (Inl e)
    then show ?thesis
      using Suc.prems by simp
  next
    case (Inr p)
    show ?thesis
    proof (cases p)
      case None
      then show ?thesis
        using Suc.prems Inr by simp
    next
      case (Some rc)
      obtain r c where rc: "rc = (r, c)"
        by (cases rc)
      have t: "try_digits (solveSudoku n) b r c [1..9] = Inr y"
        using Suc.prems Inr Some rc by simp
      have "try_digits (solveSudoku (Suc n)) b r c [1..9] = Inr y"
        by (rule try_digits_mono[where rec = "solveSudoku n", OF Suc.IH t])
      then show ?thesis
        using Inr Some rc solveSudoku.simps(2)[of "Suc n" b] by simp
    qed
  qed
qed

lemma solveSudoku_mono: "solveSudoku n b = Inr y \<Longrightarrow> solveSudoku (n + k) b = Inr y"
proof (induction k)
  case 0
  then show ?case by simp
next
  case (Suc k)
  then have "solveSudoku (Suc (n + k)) b = Inr y"
    by (intro solveSudoku_Suc_mono) simp
  then show ?case
    by (simp only: add_Suc_right)
qed

section \<open>More facts about the example boards\<close>

lemma empties_easy_board: "empties easy_board = 51"
  by code_simp

lemma digits_easy_board: "digits_board easy_board"
  unfolding digits_board_def all_grid_iff by code_simp

lemma wf_almost_solved: "wf_board almost_solved"
  unfolding almost_solved_def by (intro wf_set_cell wf_easy_solution)

lemma validateBoard_almost_solved: "validateBoard almost_solved = Inr (True, [], almost_solved)"
  by code_simp

lemma valid_almost_solved: "valid_board almost_solved"
  by (rule validateBoard_valid[OF wf_almost_solved validateBoard_almost_solved])

lemma almost_solved_steps:
  "solveSudoku_steps 3 almost_solved =
     Inr (True, easy_solution, [set_cell easy_solution 8 8 0, easy_solution])"
  by code_simp

lemma almost_solved_clue: "almost_solved ! 0 ! 0 = 5"
  by code_simp

section \<open>Claims about the solver\<close>

text \<open>
  C2: when the search starts on a 9x9 board whose non-empty cells satisfy the uniqueness
  constraint, the working board satisfies it after every assignment of the search (every
  placement and every undo, in the log of \<open>solveSudoku_steps\<close>) and at the end; the logged
  search returns what \<open>solveSudoku\<close> returns.
\<close>

theorem search_keeps_uniqueness:
  assumes "wf_board b" "valid_board b" "solveSudoku_steps n b = Inr (ok, b', log)"
  shows "list_all (\<lambda>s. wf_board s \<and> valid_board s) log \<and> valid_board b' \<and>
         solveSudoku n b = Inr (ok, b')"
proof -
  have post: "search_post b b (ok, b', log)"
    by (rule solveSudoku_steps_post[OF assms(1,3)])
  then have "list_all (search_inv b) log" and "search_inv b b'"
    by (simp_all add: search_post_def)
  then have "list_all (\<lambda>s. wf_board s \<and> valid_board s) log" and "valid_board b'"
    using search_inv_valid[OF assms(2)] search_inv_wf by (auto simp: list_all_iff)
  then show ?thesis
    using solveSudoku_stepsI[OF assms(3)] by simp
qed

theorem search_keeps_uniqueness_witness:
  "wf_board almost_solved \<and> valid_board almost_solved \<and>
   solveSudoku_steps 3 almost_solved =
     Inr (True, easy_solution, [set_cell easy_solution 8 8 0, easy_solution]) \<and>
   list_all (\<lambda>s. wf_board s \<and> valid_board s) [set_cell easy_solution 8 8 0, easy_solution] \<and>
   valid_board easy_solution \<and>
   solveSudoku 3 almost_solved = Inr (True, easy_solution)"
  using search_keeps_uniqueness[OF wf_almost_solved valid_almost_solved almost_solved_steps]
    wf_almost_solved valid_almost_solved almost_solved_steps
  by simp

text \<open>
  C3: the first preset string parses to the board \<open>easy_board\<close>, and \<open>solveSudoku\<close> on
  it, with any stack budget of at least 52 activations (the board has 51 empty cells),
  returns true and leaves a board in which every row, every column and every 3x3 box is a
  permutation of the digits 1-9.
\<close>

theorem solve_easy_puzzle:
  "loadPuzzle PUZZLE_easy = Some easy_board \<and>
   (\<exists>b'. solveSudoku (52 + k) easy_board = Inr (True, b') \<and> solved b')"
proof -
  have "empties easy_board < 52 + k"
    by (simp add: empties_easy_board)
  then obtain b' log where "solveSudoku_steps (52 + k) easy_board = Inr (True, b', log)"
    using solveSudoku_steps_complete[OF completes_easy wf_easy_board] by blast
  then have r: "solveSudoku (52 + k) easy_board = Inr (True, b')"
    by (rule solveSudoku_stepsI)
  have "search_inv easy_board b'" and ne: "no_empty b'"
    using solveSudoku_post[OF wf_easy_board r] by simp_all
  then have "valid_board b'" and "digits_board b'"
    using search_inv_valid[OF valid_easy_board] search_inv_digits[OF digits_easy_board] by blast+
  then have "solved b'"
    using ne by (intro solved_if_valid)
  then show ?thesis
    using r loadPuzzle_easy by blast
qed

text \<open>
  C4: on a 9x9 board without empty cell whose digits satisfy the uniqueness constraint,
  \<open>solveSudoku\<close> (with room for one activation or more) returns true and the board is the
  board it was given.
\<close>

theorem solve_completed_board:
  assumes "wf_board b" "no_empty b" "valid_board b"
  shows "solveSudoku (Suc n) b = Inr (True, b)"
  using assms(2) findEmpty_None[OF assms(1)] by simp

theorem solve_completed_board_witness:
  "wf_board easy_solution \<and> no_empty easy_solution \<and> valid_board easy_solution \<and>
   solveSudoku (Suc 0) easy_solution = Inr (True, easy_solution)"
  using solve_completed_board[OF wf_easy_solution no_empty_easy_solution valid_easy_solution, of 0]
    wf_easy_solution no_empty_easy_solution valid_easy_solution
  by simp

text \<open>
  C8: on every 9x9 board \<open>solveSudoku\<close> returns a boolean, and it does so within a stack
  budget of one activation more than the number of empty cells of the board (the call
  itself and at most one nested call per empty cell); that number is at most 81. A larger
  budget gives the same result.
\<close>

theorem solve_terminates_within_depth:
  assumes "wf_board b"
  shows "empties b \<le> 81 \<and>
         (\<exists>ok b'. solveSudoku (Suc (empties b)) b = Inr (ok, b') \<and>
                  solveSudoku (Suc (empties b) + k) b = Inr (ok, b'))"
proof -
  obtain ok b' where r: "solveSudoku (Suc (empties b)) b = Inr (ok, b')"
    using solveSudoku_total[OF assms, of "Suc (empties b)"] by auto
  then show ?thesis
    using empties_le_81[OF assms] solveSudoku_mono[OF r, of k] by blast
qed

theorem solve_terminates_within_depth_witness:
  "wf_board easy_board \<and> empties easy_board \<le> 81 \<and>
   (\<exists>ok b'. solveSudoku (Suc (empties easy_board)) easy_board = Inr (ok, b') \<and>
            solveSudoku (Suc (empties easy_board) + 1000) easy_board = Inr (ok, b'))"
  using solve_terminates_within_depth[OF wf_easy_board, of 1000] wf_easy_board
  by simp

text \<open>
  C9: whenever \<open>solveSudoku\<close> returns false on a 9x9 board, the board after the call is
  the board before the call.
\<close>

theorem solve_false_restores_board:
  assumes "wf_board b" "solveSudoku n b = Inr (False, b')"
  shows "b' = b"
  using solveSudoku_post[OF assms] by simp

theorem solve_false_restores_board_witness:
  "wf_board backtrack_fail \<and>
   solveSudoku_steps 2 backtrack_fail =
     Inr (False, backtrack_fail,
          [set_cell backtrack_fail 0 0 1, backtrack_fail,
           set_cell backtrack_fail 0 0 2, backtrack_fail]) \<and>
   set_cell backtrack_fail 0 0 1 \<noteq> backtrack_fail \<and>
   solveSudoku 2 backtrack_fail = Inr (False, backtrack_fail)"
  using solve_false_restores_board[OF wf_backtrack_fail backtrack_fail_fails]
    wf_backtrack_fail backtrack_fail_steps backtrack_fail_placed backtrack_fail_fails
  by simp

text \<open>
  C10: whenever \<open>solveSudoku\<close> returns true on a 9x9 board, every cell that was not empty
  in the board given holds the same value in the board returned, and held it in the
  working board after every assignment of the search.
\<close>

theorem solve_true_keeps_clues:
  assumes "wf_board b" "solveSudoku_steps n b = Inr (True, b', log)"
    and "r < 9" "c < 9" "b ! r ! c \<noteq> 0"
  shows "solveSudoku n b = Inr (True, b') \<and> b' ! r ! c = b ! r ! c \<and>
         list_all (\<lambda>s. s ! r ! c = b ! r ! c) log"
proof -
  have post: "search_post b b (True, b', log)"
    by (rule solveSudoku_steps_post[OF assms(1,2)])
  then have "list_all (search_inv b) log" and "search_inv b b'"
    by (simp_all add: search_post_def)
  then have "list_all (\<lambda>s. s ! r ! c = b ! r ! c) log" and "b' ! r ! c = b ! r ! c"
    using search_inv_clue[OF _ assms(3,4,5)] by (auto simp: list_all_iff)
  then show ?thesis
    using solveSudoku_stepsI[OF assms(2)] by simp
qed

theorem solve_true_keeps_clues_witness:
  "wf_board almost_solved \<and>
   solveSudoku_steps 3 almost_solved =
     Inr (True, easy_solution, [set_cell easy_solution 8 8 0, easy_solution]) \<and>
   almost_solved ! 0 ! 0 = 5 \<and>
   solveSudoku 3 almost_solved = Inr (True, easy_solution) \<and>
   easy_solution ! 0 ! 0 = almost_solved ! 0 ! 0 \<and>
   list_all (\<lambda>s. s ! 0 ! 0 = almost_solved ! 0 ! 0) [set_cell easy_solution 8 8 0, easy_solution]"
  using solve_true_keeps_clues[OF wf_almost_solved almost_solved_steps, of 0 0]
    wf_almost_solved almost_solved_steps almost_solved_clue
  by simp

section \<open>Claims about the validator\<close>

lemma distinct_all_cells: "distinct all_cells"
  by code_simp

lemma two_in_row_conflicts:
  assumes t: "two_in_row b r c1 c2 d" and ij: "i < 9" "j < 9"
  shows "in_conflict b (i, j) \<longleftrightarrow> i = r \<and> (j = c1 \<or> j = c2)"
proof -
  have cells: "\<And>k l. k < 9 \<Longrightarrow> l < 9 \<Longrightarrow> b ! k ! l = (if k = r \<and> (l = c1 \<or> l = c2) then d else 0)"
    using t unfolding two_in_row_def by blast
  have rng: "r < 9" "c1 < 9" "c2 < 9" "c1 \<noteq> c2" "d \<noteq> 0"
    using t unfolding two_in_row_def by auto
  show ?thesis
  proof
    assume "in_conflict b (i, j)"
    then have "b ! i ! j \<noteq> 0"
      by (simp add: in_conflict_def)
    then show "i = r \<and> (j = c1 \<or> j = c2)"
      using cells[OF ij] by (auto split: if_splits)
  next
    assume clue: "i = r \<and> (j = c1 \<or> j = c2)"
    then have v: "b ! i ! j = d"
      using cells[OF ij] by simp
    let ?o = "if j = c1 then c2 else c1"
    have o: "?o < 9" "(r, ?o) \<noteq> (i, j)" "b ! r ! ?o = d"
      using rng clue cells[OF rng(1), of ?o] by auto
    have "same_unit i j r ?o"
      using clue by (simp add: same_unit_def)
    then have "appears_elsewhere b i j d"
      using appears_elsewhereI[OF rng(1) o(1,2) _ o(3)] by blast
    then show "in_conflict b (i, j)"
      using v rng(5) by (simp add: in_conflict_def)
  qed
qed

lemma two_in_row_twin_fives: "two_in_row twin_fives 0 0 8 5"
  unfolding two_in_row_def all_grid_iff using wf_twin_fives by code_simp

text \<open>
  C6: on a 9x9 board whose only non-empty cells are two cells of one row holding the same
  digit, \<open>validateBoard\<close> returns false, marks exactly those two cells (each once) and
  leaves the board as it was.
\<close>

theorem validate_two_in_row:
  assumes "two_in_row b r c1 c2 d"
  shows "\<exists>flags. validateBoard b = Inr (False, flags, b) \<and>
           set flags = {(r, c1), (r, c2)} \<and> distinct flags"
proof -
  have wf: "wf_board b" and rng: "r < 9" "c1 < 9" "c2 < 9"
    using assms unfolding two_in_row_def by auto
  let ?flags = "filter (in_conflict b) all_cells"
  have "set ?flags = {(r, c1), (r, c2)}"
  proof (rule set_eqI)
    fix p :: pos
    obtain i j where p: "p = (i, j)"
      by (cases p)
    show "p \<in> set ?flags \<longleftrightarrow> p \<in> {(r, c1), (r, c2)}"
      unfolding p using two_in_row_conflicts[OF assms, of i j] rng
      by (auto simp: mem_all_cells)
  qed
  moreover have "distinct ?flags"
    using distinct_all_cells by (rule distinct_filter)
  moreover have "\<not> (\<forall>p \<in> set all_cells. \<not> in_conflict b p)"
    using two_in_row_conflicts[OF assms rng(1,2)] rng(1,2) mem_all_cells[of r c1] by blast
  ultimately show ?thesis
    using validateBoard_wf[OF wf] by simp
qed

theorem validate_two_in_row_witness:
  "two_in_row twin_fives 0 0 8 5 \<and>
   (\<exists>flags. validateBoard twin_fives = Inr (False, flags, twin_fives) \<and>
      set flags = {(0, 0), (0, 8)} \<and> distinct flags)"
  using validate_two_in_row[OF two_in_row_twin_fives] two_in_row_twin_fives
  by simp

text \<open>
  C7: on a 9x9 board \<open>validateBoard\<close> does not fail and leaves the board as it was (every
  cell blanked during the scan holds its value again), and a second call made right after
  the first returns the same flag and marks the same cells.
\<close>

theorem validate_leaves_board:
  assumes "wf_board b"
  shows "\<exists>valid flags. validateBoard b = Inr (valid, flags, b) \<and>
           validate_twice b = Inr ((valid, flags), (valid, flags), b)"
  unfolding validate_twice_def
  by (simp add: validateBoard_wf[OF assms])

theorem validate_leaves_board_witness:
  "wf_board twin_fives \<and>
   (\<exists>valid flags. validateBoard twin_fives = Inr (valid, flags, twin_fives) \<and>
      validate_twice twin_fives = Inr ((valid, flags), (valid, flags), twin_fives))"
  using validate_leaves_board[OF wf_twin_fives] wf_twin_fives
  by simp

section \<open>Two equal digits in a row leave no completion\<close>

lemma two_in_row_no_completion:
  assumes t: "two_in_row b r c1 c2 d" and inv: "search_inv b s" and ne: "no_empty s"
  shows False
proof -
  have cells: "\<And>k l. k < 9 \<Longrightarrow> l < 9 \<Longrightarrow> b ! k ! l = (if k = r \<and> (l = c1 \<or> l = c2) then d else 0)"
    using t unfolding two_in_row_def by blast
  have rng: "r < 9" "c1 < 9" "c2 < 9" "c1 \<noteq> c2" "1 \<le> d" "d \<le> 9"
    using t unfolding two_in_row_def by auto
  have clue: "s ! r ! c1 = d" "s ! r ! c2 = d"
    using search_inv_clue[OF inv rng(1,2)] search_inv_clue[OF inv rng(1,3)]
      cells[OF rng(1,2)] cells[OF rng(1,3)] rng(5) by auto
  have free: "1 \<le> s ! i ! j \<and> s ! i ! j \<le> 9 \<and> \<not> appears_elsewhere s i j (s ! i ! j)"
    if "i < 9" "j < 9" "i \<noteq> r" for i j
  proof -
    have "b ! i ! j = 0"
      using cells[OF that(1,2)] that(3) by simp
    moreover have "s ! i ! j \<noteq> 0"
      using ne that(1,2) unfolding no_empty_def by blast
    ultimately show ?thesis
      using inv that(1,2) unfolding search_inv_def by force
  qed
  have has_d: "\<exists>j<9. s ! i ! j = d" if i: "i < 9" "i \<noteq> r" for i
  proof -
    let ?f = "\<lambda>j. s ! i ! j"
    have inj: "inj_on ?f {..<9}"
    proof (rule inj_onI)
      fix j l
      assume jl: "j \<in> {..<9}" "l \<in> {..<9}" and eq: "s ! i ! j = s ! i ! l"
      show "j = l"
      proof (rule ccontr)
        assume "j \<noteq> l"
        then have "appears_elsewhere s i j (s ! i ! j)"
          using appears_elsewhereI[of i l i j s "s ! i ! j"] jl eq i(1)
          by (simp add: same_unit_def)
        then show False
          using free[OF i(1) _ i(2), of j] jl(1) by simp
      qed
    qed
    have sub: "?f ` {..<9} \<subseteq> {1..9}"
      using free[OF i(1) _ i(2)] by auto
    have "card (?f ` {..<9}) = card {1..9::int}"
      using card_image[OF inj] by simp
    then have "?f ` {..<9} = {1..9}"
      by (intro card_subset_eq sub) simp_all
    then have "d \<in> ?f ` {..<9}"
      using rng(5,6) by simp
    then show ?thesis
      by auto
  qed
  then obtain J where J: "\<And>i. i < 9 \<Longrightarrow> i \<noteq> r \<Longrightarrow> J i < 9 \<and> s ! i ! J i = d"
    by metis
  have off: "J i \<noteq> c1 \<and> J i \<noteq> c2" if i: "i < 9" "i \<noteq> r" for i
  proof -
    have no: "\<not> appears_elsewhere s i (J i) d"
      using free[OF i(1) _ i(2), of "J i"] J[OF i] by simp
    have "J i \<noteq> c" if c: "c < 9" "s ! r ! c = d" for c
    proof
      assume "J i = c"
      then have "appears_elsewhere s i (J i) d"
        using appears_elsewhereI[of r c i "J i" s d] rng(1) c i(2)
        by (simp add: same_unit_def)
      then show False
        using no by simp
    qed
    then show ?thesis
      using rng(2,3) clue by blast
  qed
  have injJ: "inj_on J ({..<9} - {r})"
  proof (rule inj_onI)
    fix i k
    assume ik: "i \<in> {..<9} - {r}" "k \<in> {..<9} - {r}" and eq: "J i = J k"
    have i: "i < 9" "i \<noteq> r" and k: "k < 9" "k \<noteq> r"
      using ik by auto
    show "i = k"
    proof (rule ccontr)
      assume "i \<noteq> k"
      then have "appears_elsewhere s i (J i) d"
        using appears_elsewhereI[of k "J k" i "J i" s d] J[OF k] eq k(1)
        by (simp add: same_unit_def)
      then show False
        using free[OF i(1) _ i(2), of "J i"] J[OF i] by simp
    qed
  qed
  have "J ` ({..<9} - {r}) \<subseteq> {..<9} - {c1, c2}"
    using J off by auto
  then have "card (J ` ({..<9} - {r})) \<le> card ({..<9} - {c1, c2})"
    by (intro card_mono) simp_all
  moreover have "card (J ` ({..<9} - {r})) = 8"
    using card_image[OF injJ] rng(1) by simp
  moreover have "card ({..<9} - {c1, c2}) = 7"
    using rng(2,3,4) by (simp add: card_Diff_insert)
  ultimately show False
    by simp
qed

text \<open>
  C5: on a 9x9 board whose only non-empty cells are two cells of one row holding the same
  digit, \<open>solveSudoku\<close>, with a stack budget above the number of empty cells, returns
  false (and the board is the board it was given).
\<close>

theorem solve_two_in_row_false:
  assumes "two_in_row b r c1 c2 d" "empties b < n"
  shows "solveSudoku n b = Inr (False, b)"
proof -
  have wf: "wf_board b"
    using assms(1) unfolding two_in_row_def by blast
  obtain ok b' where res: "solveSudoku n b = Inr (ok, b')"
    using solveSudoku_total[OF wf assms(2)] by blast
  have post: "search_inv b b'" "if ok then no_empty b' else b' = b"
    using solveSudoku_post[OF wf res] by simp_all
  have "\<not> ok"
  proof
    assume ok
    then have "no_empty b'"
      using post(2) by simp
    then show False
      by (rule two_in_row_no_completion[OF assms(1) post(1)])
  qed
  then show ?thesis
    using res post(2) by simp
qed

theorem solve_two_in_row_false_witness:
  "two_in_row twin_fives 0 0 8 5 \<and> empties twin_fives < 80 \<and>
   solveSudoku 80 twin_fives = Inr (False, twin_fives)"
proof -
  have e: "empties twin_fives < 80"
    by code_simp
  show ?thesis
    using solve_two_in_row_false[OF two_in_row_twin_fives e] two_in_row_twin_fives e by simp
qed

end
